theory Spec2Isabelle
  imports Main "HOL-Library.Char_ord" "HOL-Library.List_Lexorder" "HOL-Library.AList"
begin

section \<open>File names\<close>

text \<open>
  A file name is a Python \<open>str\<close>, a sequence of Unicode code points. The pipeline is
  modelled on the names whose code points are below 256, as values of \<^typ>\<open>string\<close>; on
  these \<open>\d\<close> matches the ten ASCII digits only and \<open>str.lower\<close> moves the ASCII and the
  Latin-1 capitals. Strings are compared as Python compares them: lexicographically by
  code point, a proper prefix first. The classifier \<open>is_double_page\<close> is modelled for
  every \<open>str\<close> as well, on lists of code points.
\<close>

definition is_digit :: "char \<Rightarrow> bool" where
  "is_digit c = (c \<in> set ''0123456789'')"

definition newline :: char where
  "newline = CHR 0x0A"

subsection \<open>The regular expression of \<open>is_double_page\<close>\<close>

text \<open>
  \<open>re.match(r'^\d{2,4}-\d{2,4}\.jpg$', filename)\<close>: the pattern is a sequence of items, each
  an anchor or a bounded repetition of a one-character atom. \<open>re.match\<close> looks for a match
  that starts at position 0 and may end anywhere; \<open>^\<close> holds at position 0, and \<open>$\<close> holds
  at the end of the string and also just before a newline that is its last character.
  The matcher is written once for any type of characters, from the class of characters
  that \<open>\d\<close> matches and the newline character; the pattern is built from the way the
  characters it names are written in that type.
\<close>

datatype 'c atom = Digit | Lit 'c

datatype 'c item = Bol | Eol | Rep "'c atom" nat nat

fun atom_ok :: "('c \<Rightarrow> bool) \<Rightarrow> 'c atom \<Rightarrow> 'c \<Rightarrow> bool" where
  "atom_ok digit Digit c = digit c"
| "atom_ok digit (Lit a) c = (c = a)"

fun re_match_from :: "('c \<Rightarrow> bool) \<Rightarrow> 'c \<Rightarrow> 'c item list \<Rightarrow> nat \<Rightarrow> 'c list \<Rightarrow> bool" where
  "re_match_from digit nl [] pos s = True"
| "re_match_from digit nl (Bol # r) pos s = (pos = 0 \<and> re_match_from digit nl r pos s)"
| "re_match_from digit nl (Eol # r) pos s =
     ((s = [] \<or> s = [nl]) \<and> re_match_from digit nl r pos s)"
| "re_match_from digit nl (Rep a m n # r) pos s =
     list_ex (\<lambda>k. k \<le> length s \<and> list_all (atom_ok digit a) (take k s)
                 \<and> re_match_from digit nl r (pos + k) (drop k s)) (rev [m..<Suc n])"

definition re_match :: "('c \<Rightarrow> bool) \<Rightarrow> 'c \<Rightarrow> 'c item list \<Rightarrow> 'c list \<Rightarrow> bool" where
  "re_match digit nl p s = re_match_from digit nl p 0 s"

definition lit :: "'c \<Rightarrow> 'c item" where
  "lit c = Rep (Lit c) 1 1"

definition double_page_pattern :: "(char \<Rightarrow> 'c) \<Rightarrow> 'c item list" where
  "double_page_pattern chr =
     [Bol, Rep Digit 2 4, lit (chr CHR ''-''), Rep Digit 2 4,
      lit (chr CHR ''.''), lit (chr CHR ''j''), lit (chr CHR ''p''), lit (chr CHR ''g''), Eol]"

text \<open>\<open>is_double_page\<close> on the names of the pipeline, whose code points are below 256.\<close>

definition is_double_page :: "string \<Rightarrow> bool" where
  "is_double_page filename = re_match is_digit newline (double_page_pattern (\<lambda>c. c)) filename"

text \<open>
  \<open>is_double_page\<close> on any \<open>str\<close>, a list of code points. In a \<open>str\<close> pattern \<open>\d\<close>
  matches the code points that the Unicode database of the interpreter gives the general
  category Nd; that class is the parameter \<open>decimal_digit\<close>.
\<close>

definition is_double_page_str :: "(nat \<Rightarrow> bool) \<Rightarrow> nat list \<Rightarrow> bool" where
  "is_double_page_str decimal_digit filename =
     re_match decimal_digit (of_char newline) (double_page_pattern of_char) filename"

text \<open>
  The class Nd of version 14.0 of the Unicode database, the one of CPython 3.11: sixty-one
  runs of ten code points, and the fifty mathematical digits from \<open>0x1D7CE\<close>.
\<close>

definition unicode_decimal :: "nat \<Rightarrow> bool" where
  "unicode_decimal c =
     (list_ex (\<lambda>zero. zero \<le> c \<and> c < zero + 10)
        [0x30, 0x660, 0x6F0, 0x7C0, 0x966, 0x9E6, 0xA66, 0xAE6, 0xB66, 0xBE6, 0xC66, 0xCE6,
         0xD66, 0xDE6, 0xE50, 0xED0, 0xF20, 0x1040, 0x1090, 0x17E0, 0x1810, 0x1946, 0x19D0,
         0x1A80, 0x1A90, 0x1B50, 0x1BB0, 0x1C40, 0x1C50, 0xA620, 0xA8D0, 0xA900, 0xA9D0,
         0xA9F0, 0xAA50, 0xABF0, 0xFF10, 0x104A0, 0x10D30, 0x11066, 0x110F0, 0x11136,
         0x111D0, 0x112F0, 0x11450, 0x114D0, 0x11650, 0x116C0, 0x11730, 0x118E0, 0x11950,
         0x11C50, 0x11D50, 0x11DA0, 0x16A60, 0x16AC0, 0x16B50, 0x1E140, 0x1E2F0, 0x1E950,
         0x1FBF0]
      \<or> (0x1D7CE \<le> c \<and> c < 0x1D7CE + 50))"

subsection \<open>\<open>os.path.splitext\<close>, \<open>str.lower\<close>, \<open>str.endswith\<close>\<close>

fun rfind :: "char \<Rightarrow> string \<Rightarrow> int" where
  "rfind c [] = -1"
| "rfind c (x # xs) = (let r = rfind c xs in if r \<noteq> -1 then r + 1 else if x = c then 0 else -1)"

text \<open>
  \<open>posixpath.splitext\<close>: the extension starts at the last dot, unless that dot comes before
  the last slash or only dots stand between the last slash and it.
\<close>

definition splitext :: "string \<Rightarrow> string \<times> string" where
  "splitext p =
     (let sepIndex = rfind CHR ''/'' p; dotIndex = rfind CHR ''.'' p
      in if dotIndex > sepIndex
            \<and> list_ex (\<lambda>i. p ! i \<noteq> CHR ''.'') [nat (sepIndex + 1)..<nat dotIndex]
         then (take (nat dotIndex) p, drop (nat dotIndex) p)
         else (p, []))"

definition lower_char :: "char \<Rightarrow> char" where
  "lower_char c =
     (let n = (of_char c :: nat)
      in if (65 \<le> n \<and> n \<le> 90) \<or> (192 \<le> n \<and> n \<le> 222 \<and> n \<noteq> 215) then char_of (n + 32) else c)"

definition lower :: "string \<Rightarrow> string" where
  "lower s = map lower_char s"

definition endswith :: "'a list \<Rightarrow> 'a list \<Rightarrow> bool" where
  "endswith s suffix = (length suffix \<le> length s \<and> drop (length s - length suffix) s = suffix)"

definition is_image_name :: "string \<Rightarrow> bool" where
  "is_image_name f = list_ex (endswith (lower f)) [''.jpg'', ''.jpeg'', ''.png'', ''.gif'']"

definition is_cbz_name :: "string \<Rightarrow> bool" where
  "is_cbz_name f = endswith f ''.cbz''"

subsection \<open>The format specification \<open>02d\<close>\<close>

definition digit_char :: "nat \<Rightarrow> char" where
  "digit_char d = ''0123456789'' ! d"

fun decimal :: "nat \<Rightarrow> string" where
  "decimal n = (if n < 10 then [digit_char n] else decimal (n div 10) @ [digit_char (n mod 10)])"

declare decimal.simps [simp del]

definition format_02d :: "int \<Rightarrow> string" where
  "format_02d n =
     (if n < 0 then CHR ''-'' # decimal (nat (- n))
      else replicate (2 - length (decimal (nat n))) CHR ''0'' @ decimal (nat n))"

section \<open>The file system\<close>

text \<open>
  A directory is an association list from entry names to nodes; \<open>os.listdir\<close> returns its
  keys. Paths below the temporary directory are lists of components, so
  \<open>os.path.join(p, name)\<close> is \<open>p @ [name]\<close> and \<open>os.path.basename\<close> is \<^const>\<open>last\<close>.
  The file system is case-sensitive and never refuses an operation for lack of space or
  permission; the input directory exists and the destination is writable.
\<close>

type_synonym content = string

datatype node = File content | Dir "(string \<times> node) list"

type_synonym directory = "(string \<times> node) list"

type_synonym path = "string list"

datatype error = BadZipFile | IsADirectoryError | NotADirectoryError | FileExistsError
  | FileNotFoundError | SameFileError | UnidentifiedImageError | IndexError

fun lookup :: "path \<Rightarrow> directory \<Rightarrow> node option" where
  "lookup [] d = Some (Dir d)"
| "lookup (n # p) d =
     (case map_of d n of
        None \<Rightarrow> None
      | Some (File c) \<Rightarrow> (if p = [] then Some (File c) else None)
      | Some (Dir sub) \<Rightarrow> lookup p sub)"

definition listdir :: "path \<Rightarrow> directory \<Rightarrow> error + string list" where
  "listdir p t =
     (case lookup p t of
        None \<Rightarrow> Inl FileNotFoundError
      | Some (File c) \<Rightarrow> Inl NotADirectoryError
      | Some (Dir d) \<Rightarrow> Inr (map fst d))"

text \<open>
  \<open>open(path, 'wb').write(c)\<close> after the missing parent directories have been made, as
  \<open>ZipFile.extract\<close> does for a member and \<open>shutil.copy\<close> for its target (whose parent
  exists already).
\<close>

fun write_file :: "path \<Rightarrow> content \<Rightarrow> directory \<Rightarrow> error + directory" where
  "write_file [] c d = Inr d"
| "write_file [n] c d =
     (case map_of d n of
        Some (Dir sub) \<Rightarrow> Inl IsADirectoryError
      | _ \<Rightarrow> Inr (AList.update n (File c) d))"
| "write_file (n # p) c d =
     (case map_of d n of
        Some (File c') \<Rightarrow> Inl NotADirectoryError
      | Some (Dir sub) \<Rightarrow>
          (case write_file p c sub of
             Inl e \<Rightarrow> Inl e
           | Inr sub' \<Rightarrow> Inr (AList.update n (Dir sub') d))
      | None \<Rightarrow>
          (case write_file p c [] of
             Inl e \<Rightarrow> Inl e
           | Inr sub' \<Rightarrow> Inr (AList.update n (Dir sub') d)))"

text \<open>\<open>os.makedirs(os.path.join(tempdir, name), exist_ok=True)\<close>.\<close>

definition makedirs :: "string \<Rightarrow> directory \<Rightarrow> error + directory" where
  "makedirs name t =
     (case map_of t name of
        None \<Rightarrow> Inr (AList.update name (Dir []) t)
      | Some (Dir sub) \<Rightarrow> Inr t
      | Some (File c) \<Rightarrow> Inl FileExistsError)"

text \<open>
  \<open>shutil.copy(src, dst)\<close>: a target that is a directory stands for the file of the
  source's name inside it; copying a file onto itself is refused; the source is opened
  for reading and then the target for writing, in a directory that must exist.
\<close>

definition shutil_copy :: "path \<Rightarrow> path \<Rightarrow> directory \<Rightarrow> error + directory" where
  "shutil_copy src dst t =
     (let dst' = (case lookup dst t of Some (Dir sub) \<Rightarrow> dst @ [last src] | _ \<Rightarrow> dst)
      in if src = dst' then Inl SameFileError
         else case lookup src t of
                None \<Rightarrow> Inl FileNotFoundError
              | Some (Dir sub) \<Rightarrow> Inl IsADirectoryError
              | Some (File c) \<Rightarrow>
                  (case lookup (butlast dst') t of
                     None \<Rightarrow> Inl FileNotFoundError
                   | _ \<Rightarrow> write_file dst' c t))"

section \<open>Archives\<close>

text \<open>
  An entry of the input directory is a ZIP container, a file that is not one, or a
  folder. A container is the list of its file members, each with the components of the
  path that \<open>extractall\<close> writes it to (\<open>ch1/01.jpg\<close> is \<open>[''ch1'', ''01.jpg'']\<close>).
\<close>

type_synonym member = "path \<times> content"

datatype entry = ZipArchive "member list" | NotZip | Folder

type_synonym input_directory = "(string \<times> entry) list"

fun extractall :: "member list \<Rightarrow> directory \<Rightarrow> error option \<times> directory" where
  "extractall [] d = (None, d)"
| "extractall ((p, c) # ms) d =
     (case write_file p c d of
        Inl e \<Rightarrow> (Some e, d)
      | Inr d' \<Rightarrow> extractall ms d')"

definition open_zip :: "input_directory \<Rightarrow> string \<Rightarrow> error + member list" where
  "open_zip inputdir cbz_filename =
     (case map_of inputdir cbz_filename of
        None \<Rightarrow> Inl FileNotFoundError
      | Some NotZip \<Rightarrow> Inl BadZipFile
      | Some Folder \<Rightarrow> Inl IsADirectoryError
      | Some (ZipArchive members) \<Rightarrow> Inr members)"

definition unpack_cbz :: "input_directory \<Rightarrow> string \<Rightarrow> directory \<Rightarrow> (error + path) \<times> directory" where
  "unpack_cbz inputdir cbz_filename t =
     (let cbz_subdir = fst (splitext cbz_filename)
      in case makedirs cbz_subdir t of
           Inl e \<Rightarrow> (Inl e, t)
         | Inr t1 \<Rightarrow>
             (case open_zip inputdir cbz_filename of
                Inl e \<Rightarrow> (Inl e, t1)
              | Inr members \<Rightarrow>
                  (case extractall members (case map_of t1 cbz_subdir of Some (Dir sub) \<Rightarrow> sub | _ \<Rightarrow> []) of
                     (Some e, sub') \<Rightarrow> (Inl e, AList.update cbz_subdir (Dir sub') t1)
                   | (None, sub') \<Rightarrow> (Inr [cbz_subdir], AList.update cbz_subdir (Dir sub') t1))))"

fun unpack_all ::
  "input_directory \<Rightarrow> string list \<Rightarrow> directory \<Rightarrow> path list \<Rightarrow> error option \<times> directory \<times> path list" where
  "unpack_all inputdir [] t subdirs = (None, t, subdirs)"
| "unpack_all inputdir (cbz_filename # rest) t subdirs =
     (case unpack_cbz inputdir cbz_filename t of
        (Inl e, t') \<Rightarrow> (Some e, t', subdirs)
      | (Inr subdir, t') \<Rightarrow> unpack_all inputdir rest t' (subdirs @ [subdir]))"

section \<open>Renumbering\<close>

text \<open>
  The variables of step 4 of \<open>merge_cbz_files\<close>: the tree below the temporary directory,
  \<open>page_counter\<close> and \<open>files_to_export\<close>. A step that raises leaves them as they were.
\<close>

record engine =
  tree :: directory
  page_counter :: int
  files_to_export :: "path list"

definition mergedir :: path where
  "mergedir = [''mergedir'']"

definition double_page_name :: "int \<Rightarrow> string \<Rightarrow> string" where
  "double_page_name c ext = format_02d c @ ''-'' @ format_02d (c + 1) @ ext"

definition single_page_name :: "int \<Rightarrow> string \<Rightarrow> string" where
  "single_page_name c ext = format_02d c @ ext"

text \<open>The body of the inner loop, for one \<open>filename\<close> of \<open>subdir\<close>.\<close>

definition stage_page :: "path \<Rightarrow> string \<Rightarrow> engine \<Rightarrow> error option \<times> engine" where
  "stage_page subdir filename s =
     (let original_page = subdir @ [filename]
      in if is_double_page filename then
           (let ext = snd (splitext filename);
                new_base_name = double_page_name (page_counter s) ext;
                new_page_path = mergedir @ [new_base_name]
            in case shutil_copy original_page new_page_path (tree s) of
                 Inl e \<Rightarrow> (Some e, s)
               | Inr t \<Rightarrow>
                   (None, s\<lparr>tree := t,
                            files_to_export := files_to_export s @ [new_page_path],
                            page_counter := page_counter s + 2\<rparr>))
         else
           (let ext = snd (splitext filename);
                new_page_name = single_page_name (page_counter s) ext;
                new_page_path = mergedir @ [new_page_name]
            in case shutil_copy original_page new_page_path (tree s) of
                 Inl e \<Rightarrow> (Some e, s)
               | Inr t \<Rightarrow>
                   (None, s\<lparr>tree := t,
                            files_to_export := files_to_export s @ [new_page_path],
                            page_counter := page_counter s + 1\<rparr>)))"

fun copy_pages :: "path \<Rightarrow> string list \<Rightarrow> engine \<Rightarrow> error option \<times> engine" where
  "copy_pages subdir [] s = (None, s)"
| "copy_pages subdir (filename # rest) s =
     (case stage_page subdir filename s of
        (Some e, s') \<Rightarrow> (Some e, s')
      | (None, s') \<Rightarrow> copy_pages subdir rest s')"

definition image_files :: "string list \<Rightarrow> string list" where
  "image_files names = sort (filter is_image_name names)"

fun renumber_dirs :: "path list \<Rightarrow> engine \<Rightarrow> error option \<times> engine" where
  "renumber_dirs [] s = (None, s)"
| "renumber_dirs (subdir # rest) s =
     (case listdir subdir (tree s) of
        Inl e \<Rightarrow> (Some e, s)
      | Inr names \<Rightarrow>
          (case copy_pages subdir (image_files names) s of
             (Some e, s') \<Rightarrow> (Some e, s')
           | (None, s') \<Rightarrow> renumber_dirs rest s'))"

section \<open>Writing the output\<close>

text \<open>
  The output is a ZIP container, the list of its entries, or a document, the list of its
  pages, each page being the bytes of the image file it was decoded from. Whether
  \<open>PIL.Image.open\<close> and \<open>convert('RGB')\<close> can make an image of a file's bytes is the
  parameter \<open>decodable\<close>; where they cannot, \<open>UnidentifiedImageError\<close> stands for the
  exception that either of them raises.
\<close>

datatype artifact = Cbz "(string \<times> content) list" | Pdf "content list"

fun open_images :: "(content \<Rightarrow> bool) \<Rightarrow> directory \<Rightarrow> path list \<Rightarrow> error + content list" where
  "open_images decodable t [] = Inr []"
| "open_images decodable t (file # rest) =
     (case lookup file t of
        None \<Rightarrow> Inl FileNotFoundError
      | Some (Dir sub) \<Rightarrow> Inl IsADirectoryError
      | Some (File c) \<Rightarrow>
          (if decodable c then
             (case open_images decodable t rest of
                Inl e \<Rightarrow> Inl e
              | Inr images \<Rightarrow> Inr (c # images))
           else Inl UnidentifiedImageError))"

definition export_to_pdf :: "(content \<Rightarrow> bool) \<Rightarrow> directory \<Rightarrow> path list \<Rightarrow> error + artifact" where
  "export_to_pdf decodable t files =
     (case open_images decodable t files of
        Inl e \<Rightarrow> Inl e
      | Inr [] \<Rightarrow> Inl IndexError
      | Inr (img # images) \<Rightarrow> Inr (Pdf (img # images)))"

text \<open>
  \<open>zip_out.write(file_path, arcname=os.path.basename(file_path))\<close> for each staged path;
  a directory is written as an entry without content whose name ends in a slash. The
  container exists from the moment it is opened for writing, so the entries written
  before an error stay in it.
\<close>

fun write_entries :: "directory \<Rightarrow> path list \<Rightarrow> (string \<times> content) list \<Rightarrow> error option \<times> (string \<times> content) list" where
  "write_entries t [] zip_out = (None, zip_out)"
| "write_entries t (file_path # rest) zip_out =
     (case lookup file_path t of
        None \<Rightarrow> (Some FileNotFoundError, zip_out)
      | Some (File c) \<Rightarrow> write_entries t rest (zip_out @ [(last file_path, c)])
      | Some (Dir sub) \<Rightarrow> write_entries t rest (zip_out @ [(last file_path @ ''/'', [])]))"

section \<open>The pipeline\<close>

text \<open>
  What a run of \<open>merge_cbz_files\<close> leaves behind: the exception that ended it, if any; the
  tree below the temporary directory, \<open>None\<close> once \<open>shutil.rmtree\<close> has removed it; the
  value of \<open>files_to_export\<close> when the run ended; the file at the destination, if one was
  made.
\<close>

record run =
  outcome :: "error option"
  tempdir :: "directory option"
  staged :: "path list"
  output_file :: "artifact option"

text \<open>
  \<open>merge_cbz_files\<close>, step by step: the temporary directory is made, with \<open>mergedir\<close> in
  it; the names of the input directory that end in \<open>.cbz\<close> are sorted; each archive is
  unpacked; the subdirectories are renumbered into \<open>mergedir\<close>, the counter starting
  at 1; the output is written; the temporary directory is removed. An exception ends the
  run where it is raised.
\<close>

definition cbz_files :: "input_directory \<Rightarrow> string list" where
  "cbz_files inputdir = sort (filter is_cbz_name (map fst inputdir))"

definition write_output :: "(content \<Rightarrow> bool) \<Rightarrow> bool \<Rightarrow> engine \<Rightarrow> run" where
  "write_output decodable is_pdf s =
     (if is_pdf then
        (case export_to_pdf decodable (tree s) (files_to_export s) of
           Inl e \<Rightarrow>
             \<lparr>outcome = Some e, tempdir = Some (tree s), staged = files_to_export s,
              output_file = None\<rparr>
         | Inr doc \<Rightarrow>
             \<lparr>outcome = None, tempdir = None, staged = files_to_export s,
              output_file = Some doc\<rparr>)
      else
        (case write_entries (tree s) (files_to_export s) [] of
           (Some e, zip_out) \<Rightarrow>
             \<lparr>outcome = Some e, tempdir = Some (tree s), staged = files_to_export s,
              output_file = Some (Cbz zip_out)\<rparr>
         | (None, zip_out) \<Rightarrow>
             \<lparr>outcome = None, tempdir = None, staged = files_to_export s,
              output_file = Some (Cbz zip_out)\<rparr>))"

definition merge_cbz_files :: "(content \<Rightarrow> bool) \<Rightarrow> input_directory \<Rightarrow> bool \<Rightarrow> run" where
  "merge_cbz_files decodable inputdir is_pdf =
     (case makedirs ''mergedir'' [] of
        Inl e \<Rightarrow> \<lparr>outcome = Some e, tempdir = Some [], staged = [], output_file = None\<rparr>
      | Inr t0 \<Rightarrow>
          (case unpack_all inputdir (cbz_files inputdir) t0 [] of
             (Some e, t, subdirs) \<Rightarrow>
               \<lparr>outcome = Some e, tempdir = Some t, staged = [], output_file = None\<rparr>
           | (None, t, subdirs) \<Rightarrow>
               (case renumber_dirs subdirs \<lparr>tree = t, page_counter = 1, files_to_export = []\<rparr> of
                  (Some e, s) \<Rightarrow>
                    \<lparr>outcome = Some e, tempdir = Some (tree s), staged = files_to_export s,
                     output_file = None\<rparr>
                | (None, s) \<Rightarrow> write_output decodable is_pdf s)))"

text \<open>
  \<open>main\<close> calls \<open>merge_cbz_files\<close> and catches nothing: the interpreter ends with status 1
  when an exception leaves it and with status 0 otherwise.
\<close>

definition exit_status :: "run \<Rightarrow> nat" where
  "exit_status r = (case outcome r of None \<Rightarrow> 0 | Some e \<Rightarrow> 1)"

section \<open>Notions used to state the properties\<close>

text \<open>A run of two to four decimal digits, the shape of each number of a spread's name.\<close>

definition digit_run_of :: "('c \<Rightarrow> bool) \<Rightarrow> 'c list \<Rightarrow> bool" where
  "digit_run_of digit a = (2 \<le> length a \<and> length a \<le> 4 \<and> list_all digit a)"

definition digit_run :: "string \<Rightarrow> bool" where
  "digit_run a = (2 \<le> length a \<and> length a \<le> 4 \<and> list_all is_digit a)"

text \<open>
  The number that a staged name starts with: the value, in base ten, of its longest prefix
  of digits. It reads the counter back from a name that \<open>stage_page\<close> made.
\<close>

definition digit_value :: "char \<Rightarrow> nat" where
  "digit_value c = of_char c - 48"

definition leading_number :: "string \<Rightarrow> nat" where
  "leading_number name = foldl (\<lambda>v c. 10 * v + digit_value c) 0 (takeWhile is_digit name)"

definition page_number :: "path \<Rightarrow> nat" where
  "page_number p = leading_number (last p)"

text \<open>
  The last number that a staged name takes: the number after the hyphen when the leading
  number is followed by a hyphen and a digit, as in the name of a spread, and the leading
  number itself otherwise.
\<close>

definition last_page_number :: "path \<Rightarrow> nat" where
  "last_page_number p =
     (case dropWhile is_digit (last p) of
        [] \<Rightarrow> leading_number (last p)
      | c # rest \<Rightarrow>
          if c = CHR ''-'' \<and> list_ex is_digit (take 1 rest) then leading_number rest
          else leading_number (last p))"

text \<open>
  The invariant of the renumbering loops: the counter is not negative; each staged name
  takes the numbers from its first to its last, all below the counter; and each staged
  name starts above the last number of every name staged before it.
\<close>

definition counter_inv :: "engine \<Rightarrow> bool" where
  "counter_inv s =
     (0 \<le> page_counter s
      \<and> sorted_wrt (\<lambda>p q. last_page_number p < page_number q) (files_to_export s)
      \<and> list_all (\<lambda>p. page_number p \<le> last_page_number p
                         \<and> int (last_page_number p) < page_counter s) (files_to_export s))"

text \<open>
  The names of the entries that extracting an archive leaves at the top level of its
  subdirectory: the first component of each member's path, once each.
\<close>

definition top_level_names :: "member list \<Rightarrow> string list" where
  "top_level_names ms = remdups (concat (map (\<lambda>(p, c). take 1 p) ms))"

text \<open>
  The names of the subdirectories that the archives of the input directory are unpacked
  into, and the number of top-level entries of an archive that are named as images.
\<close>

definition subdir_names :: "input_directory \<Rightarrow> string list" where
  "subdir_names inputdir = map (\<lambda>f. fst (splitext f)) (cbz_files inputdir)"

definition top_level_pages :: "input_directory \<Rightarrow> string \<Rightarrow> nat" where
  "top_level_pages inputdir f =
     (case map_of inputdir f of
        Some (ZipArchive ms) \<Rightarrow> length (filter is_image_name (top_level_names ms))
      | _ \<Rightarrow> 0)"

text \<open>The number of entries of a subdirectory of the tree that are named as images.\<close>

definition pages_in :: "directory \<Rightarrow> string \<Rightarrow> nat" where
  "pages_in t n =
     (case map_of t n of
        Some (Dir d) \<Rightarrow> length (filter is_image_name (map fst d))
      | _ \<Rightarrow> 0)"

text \<open>
  The sum, over the archives of the input directory, of the number of their image members.
\<close>

definition image_page_count :: "input_directory \<Rightarrow> nat" where
  "image_page_count inputdir =
     sum_list (map (\<lambda>(name, e). case e of
                      ZipArchive ms \<Rightarrow> length (filter (\<lambda>(p, c). is_image_name (last p)) ms)
                    | _ \<Rightarrow> 0)
                 (filter (\<lambda>(name, e). is_cbz_name name) inputdir))"

text \<open>
  The input of the worked example: \<open>vol1.cbz\<close> with the pages \<open>01.jpg\<close>, \<open>02.jpg\<close> and
  \<open>18-19.jpg\<close>, and \<open>vol2.cbz\<close> with the pages \<open>01.jpg\<close> and \<open>02.jpg\<close>, listed in
  another order than the sorted one.
\<close>

definition example_input :: input_directory where
  "example_input =
     [(''vol2.cbz'', ZipArchive [([''02.jpg''], ''v2p2''), ([''01.jpg''], ''v2p1'')]),
      (''vol1.cbz'', ZipArchive [([''18-19.jpg''], ''v1p3''), ([''01.jpg''], ''v1p1''),
                                 ([''02.jpg''], ''v1p2'')])]"

text \<open>
  Two readable archives with one top-level image each, the second one named
  \<open>mergedir.cbz\<close>.
\<close>

definition aliasing_input :: input_directory where
  "aliasing_input =
     [(''a.cbz'', ZipArchive [([''x.jpg''], ''x'')]),
      (''mergedir.cbz'', ZipArchive [([''y.jpg''], ''y'')])]"



section \<open>The classifier\<close>

lemma atom_ok_Digit: "atom_ok digit Digit = digit"
  by (rule ext) simp

lemma re_match_Rep:
  "re_match_from digit nl (Rep a m n # r) pos s \<longleftrightarrow>
     (\<exists>k. m \<le> k \<and> k \<le> n \<and> k \<le> length s \<and> list_all (atom_ok digit a) (take k s)
          \<and> re_match_from digit nl r (pos + k) (drop k s))"
  by (auto simp: list_ex_iff)

lemma re_match_lit:
  "re_match_from digit nl (lit c # r) pos s
     \<longleftrightarrow> (\<exists>t. s = c # t \<and> re_match_from digit nl r (Suc pos) t)"
proof
  assume "re_match_from digit nl (lit c # r) pos s"
  then obtain k where k: "1 \<le> k" "k \<le> 1" "k \<le> length s"
      "list_all (atom_ok digit (Lit c)) (take k s)"
      "re_match_from digit nl r (pos + k) (drop k s)"
    unfolding lit_def re_match_Rep by blast
  then have "k = 1" by simp
  with k show "\<exists>t. s = c # t \<and> re_match_from digit nl r (Suc pos) t"
    by (cases s) auto
next
  assume "\<exists>t. s = c # t \<and> re_match_from digit nl r (Suc pos) t"
  then obtain t where "s = c # t" "re_match_from digit nl r (Suc pos) t" by blast
  then show "re_match_from digit nl (lit c # r) pos s"
    unfolding lit_def re_match_Rep by (intro exI[of _ 1]) simp
qed

lemma re_match_digits:
  "re_match_from digit nl (Rep Digit 2 4 # r) pos s \<longleftrightarrow>
     (\<exists>a t. s = a @ t \<and> digit_run_of digit a \<and> re_match_from digit nl r (pos + length a) t)"
proof
  assume "re_match_from digit nl (Rep Digit 2 4 # r) pos s"
  then obtain k where k: "2 \<le> k" "k \<le> 4" "k \<le> length s" "list_all digit (take k s)"
      "re_match_from digit nl r (pos + k) (drop k s)"
    unfolding re_match_Rep atom_ok_Digit by blast
  then have "s = take k s @ drop k s \<and> digit_run_of digit (take k s)
      \<and> re_match_from digit nl r (pos + length (take k s)) (drop k s)"
    by (simp add: digit_run_of_def min_absorb2)
  then show "\<exists>a t. s = a @ t \<and> digit_run_of digit a \<and> re_match_from digit nl r (pos + length a) t"
    by blast
next
  assume "\<exists>a t. s = a @ t \<and> digit_run_of digit a \<and> re_match_from digit nl r (pos + length a) t"
  then obtain a t where "s = a @ t" "digit_run_of digit a"
    "re_match_from digit nl r (pos + length a) t" by blast
  then show "re_match_from digit nl (Rep Digit 2 4 # r) pos s"
    unfolding re_match_Rep atom_ok_Digit
    by (intro exI[of _ "length a"]) (simp add: digit_run_of_def)
qed

lemma re_match_tail:
  "re_match_from digit nl
      [lit (chr CHR ''.''), lit (chr CHR ''j''), lit (chr CHR ''p''), lit (chr CHR ''g''), Eol] pos t
     \<longleftrightarrow> (t = map chr ''.jpg'' \<or> t = map chr ''.jpg'' @ [nl])"
  by (simp add: re_match_lit del: re_match_from.simps(4)) blast

lemma double_page_pattern_iff:
  "re_match digit nl (double_page_pattern chr) f \<longleftrightarrow>
     (\<exists>a b. digit_run_of digit a \<and> digit_run_of digit b
        \<and> (f = a @ map chr ''-'' @ b @ map chr ''.jpg''
           \<or> f = a @ map chr ''-'' @ b @ map chr ''.jpg'' @ [nl]))"
proof -
  have "re_match digit nl (double_page_pattern chr) f \<longleftrightarrow>
      (\<exists>a t. f = a @ t \<and> digit_run_of digit a \<and>
         (\<exists>t1. t = chr CHR ''-'' # t1 \<and>
            (\<exists>b t2. t1 = b @ t2 \<and> digit_run_of digit b
               \<and> (t2 = map chr ''.jpg'' \<or> t2 = map chr ''.jpg'' @ [nl]))))"
    unfolding re_match_def double_page_pattern_def
    by (simp only: re_match_from.simps(2) re_match_digits re_match_lit[of _ _ "chr CHR ''-''"]
          re_match_tail simp_thms)
  also have "\<dots> \<longleftrightarrow> (\<exists>a b. digit_run_of digit a \<and> digit_run_of digit b
        \<and> (f = a @ map chr ''-'' @ b @ map chr ''.jpg''
           \<or> f = a @ map chr ''-'' @ b @ map chr ''.jpg'' @ [nl]))"
    by (simp only: append_Cons append_Nil list.map) blast
  finally show ?thesis .
qed

lemma digit_run_of_is_digit: "digit_run_of is_digit a = digit_run a"
  by (simp add: digit_run_of_def digit_run_def)

lemma is_double_page_iff:
  "is_double_page f \<longleftrightarrow>
     (\<exists>a b. digit_run a \<and> digit_run b
        \<and> (f = a @ ''-'' @ b @ ''.jpg'' \<or> f = a @ ''-'' @ b @ ''.jpg'' @ [newline]))"
  unfolding is_double_page_def double_page_pattern_iff digit_run_of_is_digit
  by (simp only: list.map_ident)

section \<open>Decimal numerals\<close>

lemma digit_cases: "d < 10 \<Longrightarrow> d \<in> {0, 1, 2, 3, 4, 5, 6, 7, 8, 9::nat}"
  by auto

lemma is_digit_digit_char: "d < 10 \<Longrightarrow> is_digit (digit_char d)"
  using digit_cases[of d] unfolding is_digit_def digit_char_def by auto

lemma digit_value_digit_char: "d < 10 \<Longrightarrow> digit_value (digit_char d) = d"
  using digit_cases[of d] unfolding digit_value_def digit_char_def by auto

lemma decimal_digits: "list_all is_digit (decimal n)"
proof (induction n rule: decimal.induct)
  case (1 n)
  show ?case
  proof (cases "n < 10")
    case True
    then show ?thesis by (subst decimal.simps) (simp add: is_digit_digit_char)
  next
    case False
    with 1 show ?thesis by (subst decimal.simps) (simp add: is_digit_digit_char)
  qed
qed

lemma decimal_value: "foldl (\<lambda>v c. 10 * v + digit_value c) 0 (decimal n) = n"
proof (induction n rule: decimal.induct)
  case (1 n)
  show ?case
  proof (cases "n < 10")
    case True
    then show ?thesis by (subst decimal.simps) (simp add: digit_value_digit_char)
  next
    case False
    with 1 show ?thesis by (subst decimal.simps) (simp add: digit_value_digit_char)
  qed
qed


lemma length_decimal_le: "n < 10 ^ k \<Longrightarrow> 0 < k \<Longrightarrow> length (decimal n) \<le> k"
proof (induction k arbitrary: n)
  case 0
  then show ?case by simp
next
  case (Suc k)
  show ?case
  proof (cases "n < 10")
    case True
    then show ?thesis by (subst decimal.simps) simp
  next
    case False
    with Suc.prems have "0 < k" by (cases k) auto
    moreover from Suc.prems have "n div 10 < 10 ^ k" by (simp add: less_mult_imp_div_less mult.commute)
    ultimately have "length (decimal (n div 10)) \<le> k" by (rule Suc.IH[rotated])
    with False show ?thesis by (subst decimal.simps) simp
  qed
qed

lemma zeros_value: "foldl (\<lambda>v c. 10 * v + digit_value c) 0 (replicate k CHR ''0'') = 0"
  by (induction k) (simp_all add: digit_value_def)

lemma is_digit_zero: "is_digit CHR ''0''"
  by (simp add: is_digit_def)

lemma zeros_digits: "list_all is_digit (replicate k CHR ''0'')"
  by (induction k) (simp_all add: is_digit_zero)

lemma format_02d_digits: "0 \<le> n \<Longrightarrow> list_all is_digit (format_02d n)"
  by (simp add: format_02d_def decimal_digits zeros_digits)

lemma format_02d_length: "0 \<le> n \<Longrightarrow> length (format_02d n) = max 2 (length (decimal (nat n)))"
  by (simp add: format_02d_def)

lemma format_02d_value:
  "0 \<le> n \<Longrightarrow> foldl (\<lambda>v c. 10 * v + digit_value c) 0 (format_02d n) = nat n"
  by (simp add: format_02d_def zeros_value decimal_value)

lemma format_02d_run:
  assumes "0 \<le> n" "n \<le> 9999"
  shows "digit_run (format_02d n)"
proof -
  from assms have "nat n < 10 ^ 4" by simp
  then have "length (decimal (nat n)) \<le> 4" by (rule length_decimal_le) simp
  with assms show ?thesis
    by (simp add: digit_run_def format_02d_digits format_02d_length)
qed

lemma leading_number_format:
  assumes "0 \<le> n" and "rest = [] \<or> \<not> is_digit (hd rest)"
  shows "leading_number (format_02d n @ rest) = nat n"
proof -
  have "takeWhile is_digit rest = []"
    using assms(2) by (cases rest) auto
  moreover have "\<forall>c\<in>set (format_02d n). is_digit c"
    using format_02d_digits[OF assms(1)] by (simp add: list_all_iff)
  ultimately have "takeWhile is_digit (format_02d n @ rest) = format_02d n"
    by (simp add: takeWhile_append2)
  then show ?thesis
    by (simp add: leading_number_def format_02d_value assms(1))
qed

section \<open>Properties of the classifier\<close>







lemma is_digit_of_char: "is_digit c \<longleftrightarrow> 48 \<le> (of_char c :: nat) \<and> (of_char c :: nat) \<le> 57"
proof
  assume "is_digit c"
  then show "48 \<le> (of_char c :: nat) \<and> (of_char c :: nat) \<le> 57"
    by (auto simp: is_digit_def)
next
  assume a: "48 \<le> (of_char c :: nat) \<and> (of_char c :: nat) \<le> 57"
  have "(of_char ` set ''0123456789'' :: nat set) = {48, 49, 50, 51, 52, 53, 54, 55, 56, 57}"
    by simp
  moreover from a have "(of_char c :: nat) \<in> {48, 49, 50, 51, 52, 53, 54, 55, 56, 57}"
    by (simp only: insert_iff empty_iff) arith
  ultimately have "(of_char c :: nat) \<in> of_char ` set ''0123456789''"
    by simp
  then show "is_digit c"
    unfolding is_digit_def by (simp only: inj_image_mem_iff[OF inj_of_char])
qed

lemma atom_ok_map:
  assumes "inj h" and "\<And>c. digit' (h c) = digit c"
  shows "atom_ok digit' (map_atom h a) (h c) = atom_ok digit a c"
  using assms by (cases a) (auto dest: injD)

lemma re_match_from_map:
  assumes "inj h" and "\<And>c. digit' (h c) = digit c"
  shows "re_match_from digit' (h nl) (map (map_item h) p) pos (map h s)
           = re_match_from digit nl p pos s"
proof (induction p arbitrary: pos s)
  case Nil
  then show ?case by simp
next
  case (Cons i p)
  show ?case
  proof (cases i)
    case Bol
    with Cons show ?thesis by simp
  next
    case Eol
    have "(map h s = [h nl]) = (s = [nl])"
      using assms(1) by (cases s) (auto dest: injD)
    with Cons Eol show ?thesis by simp
  next
    case (Rep a m n)
    have "list_all (atom_ok digit' (map_atom h a)) (take k (map h s))
        = list_all (atom_ok digit a) (take k s)" for k
      by (simp add: take_map list_all_iff atom_ok_map[of h digit' digit, OF assms])
    with Cons Rep show ?thesis
      by (simp add: drop_map list_ex_iff del: upt_Suc)
  qed
qed

lemma is_double_page_latin1:
  assumes "\<And>n. n < 256 \<Longrightarrow> decimal_digit n = (48 \<le> n \<and> n \<le> 57)"
  shows "is_double_page_str decimal_digit (map of_char f) = is_double_page f"
proof -
  have d: "decimal_digit (of_char c) = is_digit c" for c
    using assms[of "of_char c"] by (simp add: is_digit_of_char)
  have p: "double_page_pattern (of_char :: char \<Rightarrow> nat)
      = map (map_item of_char) (double_page_pattern (\<lambda>c. c))"
    by (simp add: double_page_pattern_def lit_def)
  show ?thesis
    unfolding is_double_page_str_def is_double_page_def re_match_def p
    by (rule re_match_from_map[of of_char decimal_digit is_digit, OF inj_of_char d])
qed

lemma unicode_decimal_latin1: "n < 256 \<Longrightarrow> unicode_decimal n = (48 \<le> n \<and> n \<le> 57)"
  by (auto simp: unicode_decimal_def)




text \<open>
  C10. For a counter \<open>lo\<close> from 1 to 9998 the name that the engine gives a spread,
  \<open>format_02d lo\<close>, a hyphen, \<open>format_02d (lo + 1)\<close> and \<open>.jpg\<close>, is itself classified as a
  spread: a merged archive that is merged again keeps its spreads.
\<close>

theorem double_page_name_is_double_page:
  "1 \<le> lo \<Longrightarrow> lo + 1 \<le> 9999 \<Longrightarrow> is_double_page (double_page_name lo ''.jpg'')"
  unfolding is_double_page_iff double_page_name_def
  by (intro exI[of _ "format_02d lo"] exI[of _ "format_02d (lo + 1)"]) (simp add: format_02d_run)

theorem double_page_name_is_double_page_witness:
  "(1::int) \<le> 99 \<and> (99::int) + 1 \<le> 9999 \<and> is_double_page (double_page_name 99 ''.jpg'')"
  using double_page_name_is_double_page[of 99] by simp

section \<open>The counter\<close>

lemma rfind_ge: "- 1 \<le> rfind c s"
  by (induction s) (auto simp: Let_def)

lemma rfind_found:
  "rfind c s \<noteq> - 1 \<Longrightarrow> nat (rfind c s) < length s \<and> s ! nat (rfind c s) = c"
proof (induction s)
  case Nil
  then show ?case by simp
next
  case (Cons x xs)
  show ?case
  proof (cases "rfind c xs = - 1")
    case True
    with Cons.prems show ?thesis by (simp add: Let_def split: if_splits)
  next
    case False
    with Cons.IH have "nat (rfind c xs) < length xs" "xs ! nat (rfind c xs) = c" by simp_all
    moreover from False rfind_ge[of c xs] have "0 \<le> rfind c xs" by linarith
    ultimately show ?thesis using False by (simp add: Let_def nat_add_distrib)
  qed
qed

lemma splitext_ext: "snd (splitext p) = [] \<or> hd (snd (splitext p)) = CHR ''.''"
proof (cases "rfind CHR ''/'' p < rfind CHR ''.'' p")
  case True
  with rfind_ge[of "CHR ''/''" p] have "rfind CHR ''.'' p \<noteq> - 1" by linarith
  from rfind_found[OF this] show ?thesis
    by (simp add: splitext_def Let_def hd_drop_conv_nth)
next
  case False
  then show ?thesis by (simp add: splitext_def Let_def)
qed

lemma not_digit_hyphen: "\<not> is_digit CHR ''-''" and not_digit_dot: "\<not> is_digit CHR ''.''"
  by (simp_all add: is_digit_def)

lemma page_number_double:
  "0 \<le> c \<Longrightarrow> page_number (mergedir @ [double_page_name c ext]) = nat c"
  by (simp add: page_number_def double_page_name_def leading_number_format not_digit_hyphen)

lemma page_number_single:
  "0 \<le> c \<Longrightarrow> page_number (mergedir @ [single_page_name c (snd (splitext f))]) = nat c"
  using splitext_ext[of f] leading_number_format[of c "snd (splitext f)"]
  by (auto simp: page_number_def single_page_name_def not_digit_dot)

lemma dropWhile_format:
  "0 \<le> c \<Longrightarrow> dropWhile is_digit (format_02d c @ rest) = dropWhile is_digit rest"
  using format_02d_digits[of c] by (simp add: list_all_iff dropWhile_append2)

lemma format_02d_head: "0 \<le> c \<Longrightarrow> list_ex is_digit (take 1 (format_02d c @ rest))"
proof -
  assume c: "0 \<le> c"
  then have "0 < length (format_02d c)" by (simp add: format_02d_length)
  then obtain x xs where x: "format_02d c = x # xs" by (cases "format_02d c") auto
  with format_02d_digits[OF c] show ?thesis by simp
qed

lemma last_page_number_double:
  assumes "0 \<le> c"
  shows "last_page_number (mergedir @ [double_page_name c (snd (splitext f))]) = nat (c + 1)"
proof -
  let ?r = "format_02d (c + 1) @ snd (splitext f)"
  from assms have c1: "0 \<le> c + 1" by simp
  have v: "leading_number ?r = nat (c + 1)"
    using splitext_ext[of f] leading_number_format[OF c1, of "snd (splitext f)"]
    by (auto simp: not_digit_dot)
  have n: "last (mergedir @ [double_page_name c (snd (splitext f))]) = format_02d c @ CHR ''-'' # ?r"
    by (simp add: double_page_name_def)
  have d: "dropWhile is_digit (format_02d c @ CHR ''-'' # ?r) = CHR ''-'' # ?r"
    by (simp add: dropWhile_format[OF assms] not_digit_hyphen)
  show ?thesis
    unfolding last_page_number_def n d
    by (simp only: list.case format_02d_head[OF c1] v simp_thms if_True)
qed

lemma last_page_number_single:
  assumes "0 \<le> c"
  shows "last_page_number (mergedir @ [single_page_name c (snd (splitext f))])
           = page_number (mergedir @ [single_page_name c (snd (splitext f))])"
proof (cases "snd (splitext f)")
  case Nil
  have dw: "dropWhile is_digit (format_02d c) = []"
    using dropWhile_format[OF assms, of "[]"] by simp
  show ?thesis
    by (simp add: last_page_number_def page_number_def single_page_name_def Nil dw)
next
  case (Cons x xs)
  with splitext_ext[of f] have x: "x = CHR ''.''" by simp
  show ?thesis
    unfolding last_page_number_def page_number_def single_page_name_def
    by (simp add: dropWhile_format[OF assms] Cons x not_digit_dot)
qed

lemma counter_inv_snoc:
  assumes "counter_inv s" "page_number p = nat (page_counter s)"
    "page_number p \<le> last_page_number p" "int (last_page_number p) < c"
  shows "counter_inv (s\<lparr>tree := t, files_to_export := files_to_export s @ [p], page_counter := c\<rparr>)"
  using assms
  by (auto simp: counter_inv_def sorted_wrt_append list_all_iff)

lemma stage_page_inv:
  assumes "counter_inv s"
  shows "counter_inv (snd (stage_page subdir f s))"
proof -
  from assms have c: "0 \<le> page_counter s" by (simp add: counter_inv_def)
  show ?thesis
  proof (cases "is_double_page f")
    case True
    have "counter_inv (s\<lparr>tree := t,
        files_to_export := files_to_export s
          @ [mergedir @ [double_page_name (page_counter s) (snd (splitext f))]],
        page_counter := page_counter s + 2\<rparr>)" for t
      using c by (intro counter_inv_snoc[OF assms])
        (simp_all add: page_number_double last_page_number_double)
    with True assms show ?thesis
      by (simp add: stage_page_def Let_def split: sum.splits)
  next
    case False
    have "counter_inv (s\<lparr>tree := t,
        files_to_export := files_to_export s
          @ [mergedir @ [single_page_name (page_counter s) (snd (splitext f))]],
        page_counter := page_counter s + 1\<rparr>)" for t
      using c by (intro counter_inv_snoc[OF assms])
        (simp_all add: page_number_single last_page_number_single)
    with False assms show ?thesis
      by (simp add: stage_page_def Let_def split: sum.splits)
  qed
qed

lemma copy_pages_inv: "counter_inv s \<Longrightarrow> counter_inv (snd (copy_pages subdir fs s))"
proof (induction fs arbitrary: s)
  case Nil
  then show ?case by simp
next
  case (Cons f fs)
  from stage_page_inv[OF Cons.prems, of subdir f] Cons.IH show ?case
    by (auto split: prod.splits option.splits)
qed

lemma renumber_dirs_inv: "counter_inv s \<Longrightarrow> counter_inv (snd (renumber_dirs ds s))"
proof (induction ds arbitrary: s)
  case Nil
  then show ?case by simp
next
  case (Cons d ds)
  show ?case
  proof (cases "listdir d (tree s)")
    case (Inl e)
    with Cons.prems show ?thesis by simp
  next
    case (Inr names)
    from copy_pages_inv[OF Cons.prems, of d "image_files names"] Cons.IH Inr show ?thesis
      by (auto split: prod.splits option.splits)
  qed
qed

lemma staged_write_output: "staged (write_output decodable is_pdf s) = files_to_export s"
  by (simp add: write_output_def split: sum.splits prod.splits option.splits)

lemma counter_inv_start: "counter_inv \<lparr>tree = t, page_counter = 1, files_to_export = []\<rparr>"
  by (simp add: counter_inv_def)

lemma staged_merge:
  "staged (merge_cbz_files decodable inputdir is_pdf) = []
   \<or> (\<exists>s. counter_inv s \<and> staged (merge_cbz_files decodable inputdir is_pdf) = files_to_export s)"
proof -
  have "counter_inv (snd (renumber_dirs ds \<lparr>tree = t, page_counter = 1, files_to_export = []\<rparr>))"
    for ds t
    by (rule renumber_dirs_inv) (rule counter_inv_start)
  then show ?thesis
    unfolding merge_cbz_files_def
    by (auto split: sum.splits prod.splits option.splits simp: staged_write_output) (metis snd_conv)+
qed

lemma sorted_wrt_leading:
  "sorted_wrt (\<lambda>p q. last_page_number p < page_number q) ps \<Longrightarrow>
   list_all (\<lambda>p. page_number p \<le> last_page_number p) ps \<Longrightarrow>
   sorted_wrt (<) (map page_number ps)"
proof (induction ps)
  case Nil
  then show ?case by simp
next
  case (Cons p ps)
  then show ?case by (auto simp: list_all_iff)
qed

lemma counter_inv_distinct:
  assumes "counter_inv s"
  shows "sorted_wrt (\<lambda>p q. last_page_number p < page_number q) (files_to_export s)
    \<and> list_all (\<lambda>p. page_number p \<le> last_page_number p) (files_to_export s)
    \<and> sorted_wrt (<) (map page_number (files_to_export s))
    \<and> distinct (map last (files_to_export s))"
proof -
  from assms have a: "sorted_wrt (\<lambda>p q. last_page_number p < page_number q) (files_to_export s)"
    and b: "list_all (\<lambda>p. page_number p \<le> last_page_number p) (files_to_export s)"
    by (simp_all add: counter_inv_def list_all_iff)
  then have c: "sorted_wrt (<) (map page_number (files_to_export s))"
    by (rule sorted_wrt_leading)
  then have "distinct (map page_number (files_to_export s))"
    by (simp add: strict_sorted_iff)
  then have "distinct (map leading_number (map last (files_to_export s)))"
    by (simp add: page_number_def[abs_def] comp_def)
  then have "distinct (map last (files_to_export s))"
    by (simp only: distinct_map)
  with a b c show ?thesis by simp
qed

text \<open>
  C4. On every run, whatever the input and however the run ends, each staged name
  starts with the value the counter had when it was staged (\<open>page_number_double\<close>,
  \<open>page_number_single\<close>) and takes the numbers up to its last one; along
  \<open>files_to_export\<close> each name starts above the last number of the names before it. So
  the counter values increase strictly, none is given twice, and no two staged file
  names are equal.
\<close>

theorem counter_strictly_increasing:
  "sorted_wrt (\<lambda>p q. last_page_number p < page_number q)
      (staged (merge_cbz_files decodable inputdir is_pdf))
   \<and> list_all (\<lambda>p. page_number p \<le> last_page_number p)
      (staged (merge_cbz_files decodable inputdir is_pdf))
   \<and> sorted_wrt (<) (map page_number (staged (merge_cbz_files decodable inputdir is_pdf)))
   \<and> distinct (map last (staged (merge_cbz_files decodable inputdir is_pdf)))"
  using staged_merge[of decodable inputdir is_pdf] counter_inv_distinct by auto

section \<open>The renumbering loops\<close>















lemma unpack_cbz_subdir:
  "unpack_cbz inputdir f t = (Inr subdir, t') \<Longrightarrow> subdir = [fst (splitext f)]"
  by (auto simp: unpack_cbz_def Let_def split: sum.splits prod.splits option.splits)

lemma unpack_all_subdirs:
  "unpack_all inputdir fs t acc = (None, t', subdirs) \<Longrightarrow>
   subdirs = acc @ map (\<lambda>f. [fst (splitext f)]) fs"
proof (induction fs arbitrary: t acc)
  case Nil
  then show ?case by simp
next
  case (Cons f fs)
  from Cons.prems obtain subdir t1 where
    u: "unpack_cbz inputdir f t = (Inr subdir, t1)"
    and r: "unpack_all inputdir fs t1 (acc @ [subdir]) = (None, t', subdirs)"
    by (auto split: prod.splits sum.splits)
  from Cons.IH[OF r] unpack_cbz_subdir[OF u] show ?case by simp
qed

lemma merge_after_unpack:
  assumes "unpack_all inputdir (cbz_files inputdir) [(''mergedir'', Dir [])] [] = (None, t, subdirs)"
  shows "merge_cbz_files decodable inputdir is_pdf =
     (case renumber_dirs subdirs \<lparr>tree = t, page_counter = 1, files_to_export = []\<rparr> of
        (Some e, s') \<Rightarrow>
          \<lparr>outcome = Some e, tempdir = Some (tree s'), staged = files_to_export s',
           output_file = None\<rparr>
      | (None, s') \<Rightarrow> write_output decodable is_pdf s')"
  by (simp add: merge_cbz_files_def makedirs_def assms)









section \<open>The worked example\<close>

lemma staged_merge_any_mode:
  "staged (merge_cbz_files decodable inputdir is_pdf) = staged (merge_cbz_files decodable' inputdir is_pdf')"
  unfolding merge_cbz_files_def
  by (simp add: staged_write_output split: sum.splits prod.splits option.splits)

lemma merge_archive_mode:
  "merge_cbz_files decodable inputdir False = merge_cbz_files decodable' inputdir False"
  by (simp add: merge_cbz_files_def write_output_def split: sum.splits prod.splits option.splits)

text \<open>
  C1, as the claim states it, fails: the staged names of the example are not
  \<open>01.jpg\<close>, \<open>02.jpg\<close>, \<open>04-05.jpg\<close>, \<open>06.jpg\<close>, \<open>07.jpg\<close>.
\<close>

theorem example_counterexample:
  "map last (staged (merge_cbz_files (\<lambda>c. True) example_input False))
     \<noteq> [''01.jpg'', ''02.jpg'', ''04-05.jpg'', ''06.jpg'', ''07.jpg'']"
  unfolding example_input_def by code_simp

text \<open>
  C1, as the code has it. The staged names of the example are \<open>01.jpg\<close>, \<open>02.jpg\<close>,
  \<open>03-04.jpg\<close>, \<open>05.jpg\<close>, \<open>06.jpg\<close>, in that order, the counter taking the values
  1, 2, 3, 5, 6: a spread takes the next two numbers, no number is skipped before it. In
  archive mode these are the entries of the output, each with the bytes of its page.
\<close>

theorem example_merge:
  "map last (staged (merge_cbz_files decodable example_input is_pdf))
     = [''01.jpg'', ''02.jpg'', ''03-04.jpg'', ''05.jpg'', ''06.jpg'']
   \<and> map page_number (staged (merge_cbz_files decodable example_input is_pdf)) = [1, 2, 3, 5, 6]
   \<and> output_file (merge_cbz_files decodable example_input False)
       = Some (Cbz [(''01.jpg'', ''v1p1''), (''02.jpg'', ''v1p2''), (''03-04.jpg'', ''v1p3''),
                    (''05.jpg'', ''v2p1''), (''06.jpg'', ''v2p2'')])"
proof -
  have "map last (staged (merge_cbz_files (\<lambda>c. True) example_input False))
     = [''01.jpg'', ''02.jpg'', ''03-04.jpg'', ''05.jpg'', ''06.jpg'']"
    unfolding example_input_def by code_simp
  moreover have "map page_number (staged (merge_cbz_files (\<lambda>c. True) example_input False))
     = [1, 2, 3, 5, 6]"
    unfolding example_input_def by code_simp
  moreover have "output_file (merge_cbz_files (\<lambda>c. True) example_input False)
       = Some (Cbz [(''01.jpg'', ''v1p1''), (''02.jpg'', ''v1p2''), (''03-04.jpg'', ''v1p3''),
                    (''05.jpg'', ''v2p1''), (''06.jpg'', ''v2p2'')])"
    unfolding example_input_def by code_simp
  ultimately show ?thesis
    using staged_merge_any_mode[of decodable example_input is_pdf "\<lambda>c. True" False]
      merge_archive_mode[of decodable example_input "\<lambda>c. True"]
    by simp
qed

section \<open>Page counts\<close>

text \<open>
  C5 fails on the code. \<open>a.cbz\<close> and \<open>mergedir.cbz\<close> hold one image each, two pages in
  all. \<open>mergedir.cbz\<close> is unpacked into the merge directory itself, so that directory,
  visited as a subdirectory, lists the staged \<open>01.jpg\<close> beside \<open>y.jpg\<close>: the output has
  three entries, the page of \<open>a.cbz\<close> twice.
\<close>

theorem mergedir_archive_duplicates_page:
  "image_page_count aliasing_input = 2
   \<and> outcome (merge_cbz_files (\<lambda>c. True) aliasing_input False) = None
   \<and> output_file (merge_cbz_files (\<lambda>c. True) aliasing_input False)
       = Some (Cbz [(''01.jpg'', ''x''), (''02.jpg'', ''x''), (''03.jpg'', ''y'')])"
  unfolding aliasing_input_def by code_simp

text \<open>
  C9, as the claim states it, fails: an archive whose only member is the image
  \<open>ch1/01.jpg\<close> is merged without error into an output with no page.
\<close>

theorem nested_member_not_a_page:
  "outcome (merge_cbz_files (\<lambda>c. True) [(''a.cbz'', ZipArchive [([''ch1'', ''01.jpg''], ''x'')])] False) = None
   \<and> output_file (merge_cbz_files (\<lambda>c. True) [(''a.cbz'', ZipArchive [([''ch1'', ''01.jpg''], ''x'')])] False)
       = Some (Cbz [])"
  by code_simp

lemma write_file_keys:
  assumes "write_file (n # p) c d = Inr d'"
  shows "fst ` set d' = insert n (fst ` set d)"
    and "distinct (map fst d) \<Longrightarrow> distinct (map fst d')"
proof -
  from assms obtain v where "d' = AList.update n v d"
    by (cases p) (auto split: option.splits node.splits sum.splits)
  then show "fst ` set d' = insert n (fst ` set d)"
    and "distinct (map fst d) \<Longrightarrow> distinct (map fst d')"
    by (simp_all add: dom_update distinct_update)
qed

lemma extractall_keys:
  "extractall ms d = (None, d') \<Longrightarrow> distinct (map fst d) \<Longrightarrow>
   distinct (map fst d') \<and> fst ` set d' = fst ` set d \<union> set (top_level_names ms)"
proof (induction ms arbitrary: d)
  case Nil
  then show ?case by (simp add: top_level_names_def)
next
  case (Cons m ms)
  obtain p c where m: "m = (p, c)" by (cases m)
  from Cons.prems(1) m obtain d1 where
    w: "write_file p c d = Inr d1" and r: "extractall ms d1 = (None, d')"
    by (auto split: sum.splits)
  show ?case
  proof (cases p)
    case Nil
    with w have "d1 = d" by simp
    with Cons.IH[OF r] Cons.prems(2) m Nil show ?thesis
      by (simp add: top_level_names_def)
  next
    case (Cons n q)
    from write_file_keys[OF w[unfolded Cons]] Cons.prems(2)
    have "fst ` set d1 = insert n (fst ` set d)" "distinct (map fst d1)" by simp_all
    with Cons.IH[OF r] m Cons show ?thesis
      by (auto simp: top_level_names_def)
  qed
qed

lemma length_filter_distinct:
  "distinct xs \<Longrightarrow> distinct ys \<Longrightarrow> set xs = set ys \<Longrightarrow> length (filter P xs) = length (filter P ys)"
proof -
  assume a: "distinct xs" "distinct ys" "set xs = set ys"
  then have "card (set (filter P xs)) = card (set (filter P ys))" by simp
  with a show ?thesis by (simp only: distinct_card distinct_filter)
qed

lemma stage_page_length:
  "stage_page subdir f s = (None, s') \<Longrightarrow> length (files_to_export s') = Suc (length (files_to_export s))"
  by (auto simp: stage_page_def Let_def split: if_splits sum.splits)

lemma copy_pages_length:
  "copy_pages subdir fs s = (None, s') \<Longrightarrow>
   length (files_to_export s') = length (files_to_export s) + length fs"
proof (induction fs arbitrary: s)
  case Nil
  then show ?case by simp
next
  case (Cons f fs)
  from Cons.prems obtain s1 where
    a: "stage_page subdir f s = (None, s1)" and b: "copy_pages subdir fs s1 = (None, s')"
    by (auto split: prod.splits option.splits)
  from Cons.IH[OF b] stage_page_length[OF a] show ?case by simp
qed

lemma write_file_update:
  "write_file (n # p) c d = Inr d' \<Longrightarrow> \<exists>v. d' = AList.update n v d"
  by (cases p) (auto split: option.splits node.splits sum.splits)

lemma shutil_copy_elsewhere:
  assumes "shutil_copy src (mergedir @ [name]) t = Inr t'" and "k \<noteq> ''mergedir''"
  shows "map_of t' k = map_of t k"
proof -
  from assms(1) obtain c dst' where w: "write_file dst' c t = Inr t'"
    and "dst' = ''mergedir'' # [name] \<or> dst' = ''mergedir'' # [name, last src]"
    unfolding shutil_copy_def Let_def mergedir_def
    by (auto simp del: write_file.simps split: if_splits option.splits node.splits)
  then obtain p where "dst' = ''mergedir'' # p" by blast
  with w have "write_file (''mergedir'' # p) c t = Inr t'" by simp
  from write_file_update[OF this] assms(2) show ?thesis
    by (auto simp: update_conv')
qed

lemma stage_page_elsewhere:
  assumes "stage_page subdir f s = (None, s')" and "k \<noteq> ''mergedir''"
  shows "map_of (tree s') k = map_of (tree s) k"
  using assms shutil_copy_elsewhere[of _ _ "tree s" _ k]
  by (auto simp: stage_page_def Let_def split: if_splits sum.splits)

lemma copy_pages_elsewhere:
  "copy_pages subdir fs s = (None, s') \<Longrightarrow> k \<noteq> ''mergedir'' \<Longrightarrow>
   map_of (tree s') k = map_of (tree s) k"
proof (induction fs arbitrary: s)
  case Nil
  then show ?case by simp
next
  case (Cons f fs)
  from Cons.prems(1) obtain s1 where
    a: "stage_page subdir f s = (None, s1)" and b: "copy_pages subdir fs s1 = (None, s')"
    by (auto split: prod.splits option.splits)
  from Cons.IH[OF b Cons.prems(2)] stage_page_elsewhere[OF a Cons.prems(2)] show ?case by simp
qed

lemma listdir_pages_in:
  "listdir [n] t = Inr names \<Longrightarrow> length (image_files names) = pages_in t n"
  by (auto simp: listdir_def pages_in_def image_files_def split: option.splits node.splits if_splits)

lemma pages_in_cong: "map_of t' n = map_of t n \<Longrightarrow> pages_in t' n = pages_in t n"
  by (simp add: pages_in_def)

lemma renumber_dirs_count:
  "renumber_dirs (map (\<lambda>n. [n]) names) s = (None, s') \<Longrightarrow> ''mergedir'' \<notin> set names \<Longrightarrow>
   length (files_to_export s') = length (files_to_export s) + sum_list (map (pages_in (tree s)) names)"
proof (induction names arbitrary: s)
  case Nil
  then show ?case by simp
next
  case (Cons n names)
  from Cons.prems(1) obtain listing s1 where
    l: "listdir [n] (tree s) = Inr listing"
    and c: "copy_pages [n] (image_files listing) s = (None, s1)"
    and r: "renumber_dirs (map (\<lambda>n. [n]) names) s1 = (None, s')"
    by (auto split: sum.splits prod.splits option.splits)
  from Cons.prems(2) have nm: "''mergedir'' \<notin> set names" by simp
  have same: "pages_in (tree s1) k = pages_in (tree s) k" if "k \<in> set names" for k
  proof -
    from that nm have "k \<noteq> ''mergedir''" by auto
    from copy_pages_elsewhere[OF c this] show ?thesis by (rule pages_in_cong)
  qed
  then have "map (pages_in (tree s1)) names = map (pages_in (tree s)) names"
    by simp
  with Cons.IH[OF r nm] copy_pages_length[OF c] listdir_pages_in[OF l]
  show ?case by simp
qed

lemma unpack_cbz_tree:
  assumes "unpack_cbz inputdir f t = (Inr subdir, t')" and "map_of t (fst (splitext f)) = None"
  shows "\<exists>ms d. map_of inputdir f = Some (ZipArchive ms)
           \<and> map_of t' = (map_of t)(fst (splitext f) \<mapsto> Dir d)
           \<and> distinct (map fst d) \<and> set (map fst d) = set (top_level_names ms)"
proof -
  let ?stem = "fst (splitext f)"
  from assms(2) have mk: "makedirs ?stem t = Inr (AList.update ?stem (Dir []) t)"
    by (simp add: makedirs_def)
  from assms(1) obtain ms where ms: "map_of inputdir f = Some (ZipArchive ms)"
    by (auto simp: unpack_cbz_def Let_def mk open_zip_def split: option.splits entry.splits)
  then have oz: "open_zip inputdir f = Inr ms" by (simp add: open_zip_def)
  obtain r d where ex: "extractall ms [] = (r, d)" by (cases "extractall ms []")
  from assms(1) have r: "r = None" and t': "t' = AList.update ?stem (Dir d) (AList.update ?stem (Dir []) t)"
    by (auto simp: unpack_cbz_def Let_def mk oz ex update_conv' split: option.splits)
  from extractall_keys[OF ex[unfolded r]] have "distinct (map fst d)"
    "set (map fst d) = set (top_level_names ms)" by simp_all
  moreover have "map_of t' = (map_of t)(?stem \<mapsto> Dir d)"
    unfolding t' by (simp add: update_conv')
  ultimately show ?thesis using ms by blast
qed

lemma unpack_all_tree:
  assumes "unpack_all inputdir fs t acc = (None, t', subdirs)"
    and "distinct (map (\<lambda>f. fst (splitext f)) fs)"
    and "\<forall>f\<in>set fs. map_of t (fst (splitext f)) = None"
  shows "\<forall>f\<in>set fs. pages_in t' (fst (splitext f)) = top_level_pages inputdir f"
  using assms
proof (induction fs arbitrary: t acc)
  case Nil
  then show ?case by simp
next
  case (Cons f fs)
  let ?stem = "\<lambda>f. fst (splitext f)"
  from Cons.prems(1) obtain subdir t1 where
    u: "unpack_cbz inputdir f t = (Inr subdir, t1)"
    and r: "unpack_all inputdir fs t1 (acc @ [subdir]) = (None, t', subdirs)"
    by (auto split: prod.splits sum.splits)
  from Cons.prems(3) have fresh: "map_of t (?stem f) = None" by simp
  from unpack_cbz_tree[OF u fresh] obtain ms d where
    ms: "map_of inputdir f = Some (ZipArchive ms)"
    and t1: "map_of t1 = (map_of t)(?stem f \<mapsto> Dir d)"
    and d: "distinct (map fst d)" "set (map fst d) = set (top_level_names ms)"
    by blast
  from Cons.prems(2) have df: "distinct (map ?stem fs)"
    and nf: "\<forall>g\<in>set fs. ?stem g \<noteq> ?stem f"
    by (auto simp: image_iff)
  have fresh1: "\<forall>g\<in>set fs. map_of t1 (?stem g) = None"
    using Cons.prems(3) nf unfolding t1 by auto
  note IH = Cons.IH[OF r df fresh1]
  have keep: "map_of t' (?stem f) = map_of t1 (?stem f)"
    using r nf
  proof (induction fs arbitrary: t1 acc subdir)
    case Nil
    then show ?case by simp
  next
    case (Cons g gs)
    from Cons.prems(1) obtain sd t2 where
      u2: "unpack_cbz inputdir g t1 = (Inr sd, t2)"
      and r2: "unpack_all inputdir gs t2 ((acc @ [subdir]) @ [sd]) = (None, t', subdirs)"
      by (auto split: prod.splits sum.splits)
    from Cons.prems(2) have ne: "?stem g \<noteq> ?stem f"
      and nf2: "\<forall>g\<in>set gs. ?stem g \<noteq> ?stem f" by (auto simp: image_iff)
    from u2 have "map_of t2 (?stem f) = map_of t1 (?stem f)"
      using ne
      by (auto simp: unpack_cbz_def Let_def makedirs_def update_conv'
          split: option.splits node.splits sum.splits prod.splits)
    with Cons.IH[OF r2 nf2] show ?case by simp
  qed
  have "pages_in t' (?stem f) = top_level_pages inputdir f"
    unfolding pages_in_def keep t1 top_level_pages_def ms
    using length_filter_distinct[OF d(1) _ d(2)] by (simp add: top_level_names_def)
  with IH show ?case by simp
qed

text \<open>
  C9, as the code has it. Extraction keeps the folders of the members, and the pages of
  an archive are read from the top level of its subdirectory only. When the archives
  are unpacked into different subdirectories, none of them the merge directory, and the
  run succeeds, the number of staged pages is the sum, over the archives, of the number
  of top-level entries whose names end, in any letter case, in \<open>.jpg\<close>, \<open>.jpeg\<close>,
  \<open>.png\<close> or \<open>.gif\<close>: a member inside a folder adds only the folder's name to the top
  level and is no page itself.
\<close>

theorem top_level_image_pages:
  assumes "distinct (subdir_names inputdir)"
    and "''mergedir'' \<notin> set (subdir_names inputdir)"
    and "outcome (merge_cbz_files decodable inputdir is_pdf) = None"
  shows "length (staged (merge_cbz_files decodable inputdir is_pdf))
           = sum_list (map (top_level_pages inputdir) (cbz_files inputdir))"
proof -
  let ?stem = "\<lambda>f. fst (splitext f)"
  let ?t0 = "[(''mergedir'', Dir [])]"
  obtain r t subdirs where
    u: "unpack_all inputdir (cbz_files inputdir) ?t0 [] = (r, t, subdirs)"
    by (cases "unpack_all inputdir (cbz_files inputdir) ?t0 []")
  from assms(3) have r: "r = None"
    by (cases r) (simp_all add: merge_cbz_files_def makedirs_def u)
  note u = u[unfolded r]
  from unpack_all_subdirs[OF u] have subdirs: "subdirs = map (\<lambda>n. [n]) (subdir_names inputdir)"
    by (simp add: subdir_names_def comp_def)
  from assms(2) have fresh: "\<forall>f\<in>set (cbz_files inputdir). map_of ?t0 (?stem f) = None"
    by (auto simp: subdir_names_def image_iff)
  from assms(1) have "distinct (map ?stem (cbz_files inputdir))"
    by (simp add: subdir_names_def)
  from unpack_all_tree[OF u this fresh]
  have pages: "\<forall>f\<in>set (cbz_files inputdir). pages_in t (?stem f) = top_level_pages inputdir f" .
  let ?s0 = "\<lparr>tree = t, page_counter = 1, files_to_export = []\<rparr>"
  obtain r2 s2 where rd: "renumber_dirs subdirs ?s0 = (r2, s2)"
    by (cases "renumber_dirs subdirs ?s0")
  from assms(3) have r2: "r2 = None"
    unfolding merge_after_unpack[OF u] rd by (cases r2) simp_all
  have "staged (merge_cbz_files decodable inputdir is_pdf) = files_to_export s2"
    unfolding merge_after_unpack[OF u] rd r2 by (simp add: staged_write_output)
  moreover from renumber_dirs_count[OF rd[unfolded r2 subdirs] assms(2)]
  have "length (files_to_export s2) = sum_list (map (pages_in t) (subdir_names inputdir))"
    by simp
  moreover have "map (pages_in t) (subdir_names inputdir)
      = map (top_level_pages inputdir) (cbz_files inputdir)"
    using pages by (simp add: subdir_names_def)
  ultimately show ?thesis by simp
qed

theorem top_level_image_pages_witness:
  "distinct (subdir_names
      [(''b.cbz'', ZipArchive [([''01.JPG''], ''p''), ([''ch1'', ''02.jpg''], ''q''), ([''notes.txt''], ''r'')]),
       (''a.cbz'', ZipArchive [([''x.png''], ''x''), ([''y.gif''], ''y'')])])
   \<and> ''mergedir'' \<notin> set (subdir_names
      [(''b.cbz'', ZipArchive [([''01.JPG''], ''p''), ([''ch1'', ''02.jpg''], ''q''), ([''notes.txt''], ''r'')]),
       (''a.cbz'', ZipArchive [([''x.png''], ''x''), ([''y.gif''], ''y'')])])
   \<and> outcome (merge_cbz_files (\<lambda>c. True)
      [(''b.cbz'', ZipArchive [([''01.JPG''], ''p''), ([''ch1'', ''02.jpg''], ''q''), ([''notes.txt''], ''r'')]),
       (''a.cbz'', ZipArchive [([''x.png''], ''x''), ([''y.gif''], ''y'')])] False) = None
   \<and> length (staged (merge_cbz_files (\<lambda>c. True)
      [(''b.cbz'', ZipArchive [([''01.JPG''], ''p''), ([''ch1'', ''02.jpg''], ''q''), ([''notes.txt''], ''r'')]),
       (''a.cbz'', ZipArchive [([''x.png''], ''x''), ([''y.gif''], ''y'')])] False)) = 3"
proof -
  let ?inp = "[(''b.cbz'', ZipArchive [([''01.JPG''], ''p''), ([''ch1'', ''02.jpg''], ''q''), ([''notes.txt''], ''r'')]),
       (''a.cbz'', ZipArchive [([''x.png''], ''x''), ([''y.gif''], ''y'')])]"
  have a: "distinct (subdir_names ?inp)" by code_simp
  have b: "''mergedir'' \<notin> set (subdir_names ?inp)" by code_simp
  have c: "outcome (merge_cbz_files (\<lambda>c. True) ?inp False) = None" by code_simp
  have d: "sum_list (map (top_level_pages ?inp) (cbz_files ?inp)) = 3" by code_simp
  from top_level_image_pages[OF a b c] a b c d show ?thesis by simp
qed

section \<open>Cleanup and the empty input\<close>

lemma tempdir_write_output:
  "(tempdir (write_output decodable is_pdf s) = None) = (outcome (write_output decodable is_pdf s) = None)"
  by (simp add: write_output_def split: sum.splits prod.splits option.splits)

text \<open>
  C7, as the code has it. The temporary directory is removed exactly on the runs that
  succeed: \<open>shutil.rmtree\<close> is the last step of \<open>merge_cbz_files\<close> and nothing catches
  an exception, so a run that fails at any stage leaves the directory behind.
\<close>

theorem tempdir_removed_iff_success:
  "(tempdir (merge_cbz_files decodable inputdir is_pdf) = None)
     = (outcome (merge_cbz_files decodable inputdir is_pdf) = None)"
  unfolding merge_cbz_files_def
  by (simp add: tempdir_write_output split: sum.splits prod.splits option.splits)

text \<open>
  C7, as the claim states it, fails: when \<open>a.cbz\<close> is not a ZIP container the run ends
  with \<open>BadZipFile\<close> and the temporary directory, with the two subdirectories made so
  far, is still there.
\<close>

theorem tempdir_left_after_bad_archive:
  "outcome (merge_cbz_files (\<lambda>c. True) [(''a.cbz'', NotZip)] False) = Some BadZipFile
   \<and> tempdir (merge_cbz_files (\<lambda>c. True) [(''a.cbz'', NotZip)] False)
       = Some [(''mergedir'', Dir []), (''a'', Dir [])]"
  by code_simp

text \<open>
  C8, as the code has it. When no name in the input directory ends in \<open>.cbz\<close>, nothing
  checks for it: the temporary directory is made as on any run. In archive mode the run
  succeeds, with exit status 0, writes an output container without entries and removes
  the temporary directory. In document mode the run fails with \<open>IndexError\<close> at the
  first page of an empty list, with exit status 1, writes no output and leaves the
  temporary directory.
\<close>

theorem no_archives:
  assumes "filter is_cbz_name (map fst inputdir) = []"
  shows "merge_cbz_files decodable inputdir False
           = \<lparr>outcome = None, tempdir = None, staged = [], output_file = Some (Cbz [])\<rparr>
         \<and> exit_status (merge_cbz_files decodable inputdir False) = 0
         \<and> merge_cbz_files decodable inputdir True
           = \<lparr>outcome = Some IndexError, tempdir = Some [(''mergedir'', Dir [])], staged = [],
              output_file = None\<rparr>
         \<and> exit_status (merge_cbz_files decodable inputdir True) = 1"
  using assms
  by (simp add: merge_cbz_files_def cbz_files_def makedirs_def write_output_def
      export_to_pdf_def exit_status_def)

theorem no_archives_witness:
  "filter is_cbz_name (map fst [(''notes.txt'', NotZip)]) = []
   \<and> merge_cbz_files (\<lambda>c. True) [(''notes.txt'', NotZip)] False
       = \<lparr>outcome = None, tempdir = None, staged = [], output_file = Some (Cbz [])\<rparr>"
proof -
  have h: "filter is_cbz_name (map fst [(''notes.txt'', NotZip)]) = []"
    by code_simp
  from no_archives[OF h, of "\<lambda>c. True"] h show ?thesis by blast
qed

text \<open>
  C8, as the claim states it, fails: on an empty input directory the run in archive
  mode succeeds, with exit status 0, and the output file is made.
\<close>

theorem empty_input_succeeds:
  "outcome (merge_cbz_files (\<lambda>c. True) [] False) = None
   \<and> exit_status (merge_cbz_files (\<lambda>c. True) [] False) = 0
   \<and> output_file (merge_cbz_files (\<lambda>c. True) [] False) = Some (Cbz [])"
  by code_simp

end
